theory Spec2Isabelle
  imports Main "HOL-Library.Word" "HOL-Library.Monad_Syntax"
begin

section \<open>The hardware the program talks to\<close>

text \<open>
  The program of \<^verbatim>\<open>Adv-2-SONAR.c\<close> drives the TRIG pin (\<^verbatim>\<open>LATCbits.LATC0\<close>),
  polls the ECHO pin (\<^verbatim>\<open>PORTCbits.RC1\<close>) and waits in the busy-wait delays
  \<^verbatim>\<open>__delay_us\<close> and \<^verbatim>\<open>__delay_ms\<close>. Its variables are bytes
  (\<^verbatim>\<open>unsigned char\<close>).

  ECHO is an input pin: what a read returns is decided by the sensor, not by the program.
  The environment is therefore a function \<open>echo\<close> that gives the level seen by the
  \<open>n\<close>-th read of the pin (counted from 0), and the state counts the reads made so far.
  Every access to a pin and every delay is appended to a log, in program order.
\<close>

type_synonym byte = "8 word"

datatype event =
    Echo_read bool    \<comment> \<open>a read of ECHO and the level it returned\<close>
  | Trig_write bool   \<comment> \<open>\<^verbatim>\<open>TRIG = 1\<close> or \<^verbatim>\<open>TRIG = 0\<close>\<close>
  | Latc_write byte   \<comment> \<open>a write of the whole LATC register (the LEDs)\<close>
  | Delay_us nat      \<comment> \<open>\<^verbatim>\<open>__delay_us(n)\<close>\<close>
  | Delay_ms nat      \<comment> \<open>\<^verbatim>\<open>__delay_ms(n)\<close>\<close>

record hw =
  LATC :: byte          \<comment> \<open>output latch of port C; bit 0 is TRIG, bits 4..7 are the LEDs\<close>
  reads :: nat          \<comment> \<open>number of reads of ECHO made so far\<close>
  log :: "event list"   \<comment> \<open>pin accesses and delays, oldest first\<close>
  distance :: byte      \<comment> \<open>the program's global \<^verbatim>\<open>distance\<close>, kept with the board state\<close>

definition read_ECHO :: "(nat \<Rightarrow> bool) \<Rightarrow> hw \<Rightarrow> bool \<times> hw" where
  "read_ECHO echo s =
     (echo (reads s),
      s\<lparr>reads := Suc (reads s), log := log s @ [Echo_read (echo (reads s))]\<rparr>)"

definition write_TRIG :: "bool \<Rightarrow> hw \<Rightarrow> hw" where
  "write_TRIG v s =
     s\<lparr>LATC := (if v then set_bit 0 (LATC s) else unset_bit 0 (LATC s)),
       log := log s @ [Trig_write v]\<rparr>"

definition write_LATC :: "byte \<Rightarrow> hw \<Rightarrow> hw" where
  "write_LATC v s = s\<lparr>LATC := v, log := log s @ [Latc_write v]\<rparr>"

definition delay_us :: "nat \<Rightarrow> hw \<Rightarrow> hw" where
  "delay_us n s = s\<lparr>log := log s @ [Delay_us n]\<rparr>"

definition delay_ms :: "nat \<Rightarrow> hw \<Rightarrow> hw" where
  "delay_ms n s = s\<lparr>log := log s @ [Delay_ms n]\<rparr>"

section \<open>The starter range function (lines 48 to 69)\<close>

text \<open>
  A busy-wait may spin forever, so each loop is a partial function into \<open>option\<close>:
  \<open>None\<close> is a loop that never exits.

  \<^verbatim>\<open>while(ECHO == 0);\<close>
\<close>

partial_function (option) wait_echo_start :: "(nat \<Rightarrow> bool) \<Rightarrow> hw \<Rightarrow> hw option" where
  "wait_echo_start echo s =
     (case read_ECHO echo s of
        (v, s') \<Rightarrow> if v = False then wait_echo_start echo s' else Some s')"

text \<open>
  \<^verbatim>\<open>do { __delay_us(58); if(range < 255) { range ++; } } while(ECHO == 1);\<close>
  followed by \<^verbatim>\<open>return(range);\<close>. The local \<^verbatim>\<open>range\<close> is \<open>rng\<close> here
  (\<open>range\<close> is a constant of HOL).
\<close>

partial_function (option) count_range ::
  "(nat \<Rightarrow> bool) \<Rightarrow> byte \<Rightarrow> hw \<Rightarrow> (byte \<times> hw) option" where
  "count_range echo rng s =
     (let s1 = delay_us 58 s;
          rng' = (if rng < 255 then rng + 1 else rng)
      in case read_ECHO echo s1 of
           (v, s2) \<Rightarrow> if v = True then count_range echo rng' s2 else Some (rng', s2))"

definition sonar_range :: "(nat \<Rightarrow> bool) \<Rightarrow> hw \<Rightarrow> (byte \<times> hw) option" where
  "sonar_range echo s =
     (let s1 = write_TRIG True s;
          s2 = delay_us 20 s1;
          s3 = write_TRIG False s2
      in do { s4 \<leftarrow> wait_echo_start echo s3;
              count_range echo 0 s4 })"

section \<open>The main loop (lines 96 to 130)\<close>

text \<open>
  The cascade of lines 102 to 121 writes one of five LED patterns to LATC, chosen by
  \<^verbatim>\<open>distance\<close>.
\<close>

definition show_distance :: "hw \<Rightarrow> hw" where
  "show_distance s =
     (if distance s > 20 then write_LATC 0b11110000 s
      else if distance s > 10 then write_LATC 0b01110000 s
      else if distance s > 5 then write_LATC 0b00110000 s
      else if distance s > 1 then write_LATC 0b00010000 s
      else write_LATC 0 s)"

text \<open>
  One pass of \<^verbatim>\<open>while(1)\<close>. \<open>SW1\<close> is the level of the push button pin when the pass
  reads it; \<^verbatim>\<open>RESET()\<close> leaves the program for the bootloader.
\<close>

datatype pass = Continue hw | Reset hw

definition main_loop_pass :: "(nat \<Rightarrow> bool) \<Rightarrow> bool \<Rightarrow> hw \<Rightarrow> pass option" where
  "main_loop_pass echo SW1 s =
     do { (d, s1) \<leftarrow> sonar_range echo s;
          let s2 = s1\<lparr>distance := d\<rparr>;
              s3 = show_distance s2;
              s4 = delay_ms 100 s3
          in if SW1 = False then Some (Reset s4) else Some (Continue s4) }"

text \<open>
  The number of LEDs a pattern lights: the LEDs are bits 4 to 7 of LATC.
\<close>

definition leds_lit :: "byte \<Rightarrow> nat" where
  "leds_lit v = length (filter (bit v) [4, 5, 6, 7])"

section \<open>The revised functions (lines 312 to 366)\<close>

text \<open>\<^verbatim>\<open>bool sonar_ready(void)\<close>, lines 315 to 322.\<close>

definition sonar_ready :: "(nat \<Rightarrow> bool) \<Rightarrow> hw \<Rightarrow> bool \<times> hw" where
  "sonar_ready echo s =
     (case read_ECHO echo s of
        (v, s') \<Rightarrow> if v = True then (False, s') else (True, s'))"

text \<open>\<^verbatim>\<open>while(ECHO == 1);\<close>, line 344.\<close>

partial_function (option) wait_echo_end :: "(nat \<Rightarrow> bool) \<Rightarrow> hw \<Rightarrow> hw option" where
  "wait_echo_end echo s =
     (case read_ECHO echo s of
        (v, s') \<Rightarrow> if v = True then wait_echo_end echo s' else Some s')"

text \<open>
  \<^verbatim>\<open>do { __delay_us(58); range ++; if(range == maxRange) { return(0); } } while(ECHO == 1);\<close>
  followed by \<^verbatim>\<open>return(range);\<close>. The counter is a byte and \<^verbatim>\<open>range ++\<close> is not
  guarded here: 255 + 1 is 0.
\<close>

partial_function (option) count_range_revised ::
  "(nat \<Rightarrow> bool) \<Rightarrow> byte \<Rightarrow> byte \<Rightarrow> hw \<Rightarrow> (byte \<times> hw) option" where
  "count_range_revised echo maxRange rng s =
     (let s1 = delay_us 58 s;
          rng' = rng + 1
      in if rng' = maxRange then Some (0, s1)
         else case read_ECHO echo s1 of
                (v, s2) \<Rightarrow> if v = True then count_range_revised echo maxRange rng' s2
                           else Some (rng', s2))"

text \<open>\<^verbatim>\<open>unsigned char sonar_range(unsigned char maxRange)\<close>, lines 341 to 366.\<close>

definition sonar_range_revised ::
  "(nat \<Rightarrow> bool) \<Rightarrow> byte \<Rightarrow> hw \<Rightarrow> (byte \<times> hw) option" where
  "sonar_range_revised echo maxRange s =
     do { s1 \<leftarrow> wait_echo_end echo s;
          let s2 = delay_ms 1 s1;
              s3 = write_TRIG True s2;
              s4 = delay_us 20 s3;
              s5 = write_TRIG False s4
          in do { s6 \<leftarrow> wait_echo_start echo s5;
                  count_range_revised echo maxRange 0 s6 } }"

section \<open>The revised range function, run for a bounded number of loop passes\<close>

text \<open>
  \<open>None\<close> says that a run never returns, but not what it did before it got stuck. To
  speak about runs in progress, the same three loops are written once more with a budget
  of loop passes: a loop that has used up the budget stops where it is and hands back
  the state reached (\<open>Running\<close>); a loop that exits hands back its result and what is
  left of the budget (\<open>Returned\<close>).
\<close>

datatype 'a run = Returned 'a nat | Running hw

fun wait_echo_end_upto :: "nat \<Rightarrow> (nat \<Rightarrow> bool) \<Rightarrow> hw \<Rightarrow> hw run" where
  "wait_echo_end_upto 0 echo s = Running s"
| "wait_echo_end_upto (Suc n) echo s =
     (case read_ECHO echo s of
        (v, s') \<Rightarrow> if v = True then wait_echo_end_upto n echo s' else Returned s' n)"

fun wait_echo_start_upto :: "nat \<Rightarrow> (nat \<Rightarrow> bool) \<Rightarrow> hw \<Rightarrow> hw run" where
  "wait_echo_start_upto 0 echo s = Running s"
| "wait_echo_start_upto (Suc n) echo s =
     (case read_ECHO echo s of
        (v, s') \<Rightarrow> if v = False then wait_echo_start_upto n echo s' else Returned s' n)"

fun count_range_revised_upto ::
  "nat \<Rightarrow> (nat \<Rightarrow> bool) \<Rightarrow> byte \<Rightarrow> byte \<Rightarrow> hw \<Rightarrow> (byte \<times> hw) run" where
  "count_range_revised_upto 0 echo maxRange rng s = Running s"
| "count_range_revised_upto (Suc n) echo maxRange rng s =
     (let s1 = delay_us 58 s;
          rng' = rng + 1
      in if rng' = maxRange then Returned (0, s1) n
         else case read_ECHO echo s1 of
                (v, s2) \<Rightarrow> if v = True then count_range_revised_upto n echo maxRange rng' s2
                           else Returned (rng', s2) n)"

definition sonar_range_revised_upto ::
  "nat \<Rightarrow> (nat \<Rightarrow> bool) \<Rightarrow> byte \<Rightarrow> hw \<Rightarrow> (byte \<times> hw) run" where
  "sonar_range_revised_upto n echo maxRange s =
     (case wait_echo_end_upto n echo s of
        Running s' \<Rightarrow> Running s'
      | Returned s1 n1 \<Rightarrow>
          let s2 = delay_ms 1 s1;
              s3 = write_TRIG True s2;
              s4 = delay_us 20 s3;
              s5 = write_TRIG False s4
          in (case wait_echo_start_upto n1 echo s5 of
                Running s' \<Rightarrow> Running s'
              | Returned s6 n2 \<Rightarrow> count_range_revised_upto n2 echo maxRange 0 s6))"

text \<open>
  The hardware state a run has reached (\<open>hw_of\<close> for the whole function and its counting
  loop, \<open>run_hw\<close> for a waiting loop), and the events a run has added to a log.
\<close>

fun hw_of :: "(byte \<times> hw) run \<Rightarrow> hw" where
  "hw_of (Returned y n) = snd y"
| "hw_of (Running s) = s"

fun run_hw :: "hw run \<Rightarrow> hw" where
  "run_hw (Returned s n) = s"
| "run_hw (Running s) = s"

definition events_since :: "hw \<Rightarrow> hw \<Rightarrow> event list" where
  "events_since s s' = drop (length (log s)) (log s')"

section \<open>Inputs\<close>

text \<open>
  The state after reset, before any pin has been touched, and the ECHO input that is low
  for the first \<open>k\<close> reads, high for the next \<open>D\<close> reads and low ever after.
\<close>

definition hw_init :: hw where
  "hw_init = \<lparr>LATC = 0, reads = 0, log = [], distance = 0\<rparr>"

definition echo_pulse :: "nat \<Rightarrow> nat \<Rightarrow> nat \<Rightarrow> bool" where
  "echo_pulse k D n = (k \<le> n \<and> n < k + D)"

section \<open>Facts about the pins and the loops\<close>

text \<open>Neither a write to TRIG nor a delay reads ECHO.\<close>

lemma reads_write_TRIG [simp]: "reads (write_TRIG v s) = reads s"
  by (simp add: write_TRIG_def)

lemma reads_delay_us [simp]: "reads (delay_us n s) = reads s"
  by (simp add: delay_us_def)

lemma reads_delay_ms [simp]: "reads (delay_ms n s) = reads s"
  by (simp add: delay_ms_def)

subsection \<open>The waiting loops\<close>

text \<open>
  A waiting loop that meets the level it waits for after \<open>k\<close> reads exits there, having
  logged those reads and nothing else.
\<close>

lemma wait_echo_start_returns:
  "\<forall>i<k. \<not> echo (reads s + i) \<Longrightarrow> echo (reads s + k) \<Longrightarrow>
   wait_echo_start echo s =
     Some (s\<lparr>reads := reads s + k + 1,
             log := log s @ replicate k (Echo_read False) @ [Echo_read True]\<rparr>)"
proof (induction k arbitrary: s)
  case 0
  then show ?case
    by (subst wait_echo_start.simps) (simp add: read_ECHO_def)
next
  case (Suc k)
  let ?s' = "s\<lparr>reads := Suc (reads s), log := log s @ [Echo_read False]\<rparr>"
  from Suc.prems(1) have low: "\<not> echo (reads s)" by force
  have "\<not> echo (reads ?s' + i)" if "i < k" for i
    using Suc.prems(1) that by (auto dest: spec [of _ "Suc i"])
  moreover have "echo (reads ?s' + k)" using Suc.prems(2) by simp
  ultimately have "wait_echo_start echo ?s' =
     Some (?s'\<lparr>reads := reads ?s' + k + 1,
             log := log ?s' @ replicate k (Echo_read False) @ [Echo_read True]\<rparr>)"
    by (intro Suc.IH) auto
  then show ?case using low
    by (subst wait_echo_start.simps) (simp add: read_ECHO_def replicate_app_Cons_same)
qed

lemma wait_echo_end_returns:
  "\<forall>i<p. echo (reads s + i) \<Longrightarrow> \<not> echo (reads s + p) \<Longrightarrow>
   wait_echo_end echo s =
     Some (s\<lparr>reads := reads s + p + 1,
             log := log s @ replicate p (Echo_read True) @ [Echo_read False]\<rparr>)"
proof (induction p arbitrary: s)
  case 0
  then show ?case
    by (subst wait_echo_end.simps) (simp add: read_ECHO_def)
next
  case (Suc p)
  let ?s' = "s\<lparr>reads := Suc (reads s), log := log s @ [Echo_read True]\<rparr>"
  from Suc.prems(1) have high: "echo (reads s)" by force
  have "echo (reads ?s' + i)" if "i < p" for i
    using Suc.prems(1) that by (auto dest: spec [of _ "Suc i"])
  moreover have "\<not> echo (reads ?s' + p)" using Suc.prems(2) by simp
  ultimately have "wait_echo_end echo ?s' =
     Some (?s'\<lparr>reads := reads ?s' + p + 1,
             log := log ?s' @ replicate p (Echo_read True) @ [Echo_read False]\<rparr>)"
    by (intro Suc.IH) auto
  then show ?case using high
    by (subst wait_echo_end.simps) (simp add: read_ECHO_def replicate_app_Cons_same)
qed

text \<open>
  The wait for the start of the pulse exits only on a read that returns high: if no read
  ever does, it spins forever.
\<close>

lemma wait_echo_start_sees_high:
  assumes ret: "wait_echo_start echo s = Some s'"
  shows "\<exists>i. echo (reads s + i)"
proof (rule wait_echo_start.raw_induct
         [where P = "\<lambda>echo s y. \<exists>i. echo (reads s + i)", OF _ ret])
  fix f :: "(nat \<Rightarrow> bool) \<Rightarrow> hw \<Rightarrow> hw option" and echo s y
  assume IH: "\<And>e t y. f e t = Some y \<Longrightarrow> \<exists>i. e (reads t + i)"
    and step: "(case read_ECHO echo s of
                  (v, s') \<Rightarrow> if v = False then f echo s' else Some s') = Some y"
  show "\<exists>i. echo (reads s + i)"
  proof (cases "echo (reads s)")
    case True
    then have "echo (reads s + 0)" by simp
    then show ?thesis by (rule exI)
  next
    case False
    with step
    have "f echo (s\<lparr>reads := Suc (reads s), log := log s @ [Echo_read False]\<rparr>) = Some y"
      by (simp add: read_ECHO_def)
    then have "\<exists>i. echo (reads (s\<lparr>reads := Suc (reads s),
                                   log := log s @ [Echo_read False]\<rparr>) + i)"
      by (rule IH)
    then obtain i where "echo (Suc (reads s) + i)" by auto
    then have "echo (reads s + Suc i)" by simp
    then show ?thesis by (rule exI)
  qed
qed

lemma wait_echo_start_hangs:
  "\<forall>i. \<not> echo (reads s + i) \<Longrightarrow> wait_echo_start echo s = None"
  using wait_echo_start_sees_high [of echo s] by (cases "wait_echo_start echo s") auto

subsection \<open>Byte arithmetic\<close>

lemma unat_byte_less: "unat (w :: byte) < 256"
  using unsigned_less [of w, where 'a = nat] by simp

lemma sat_inc_unat:
  "unat (if rng < 255 then rng + 1 else rng :: byte) = min (unat rng + 1) 255"
proof (cases "rng < 255")
  case True
  then have "unat rng < 255" by (simp add: word_less_nat_alt)
  then show ?thesis using True by (simp add: unat_word_ariths)
next
  case False
  then have "255 \<le> unat rng" by (simp add: word_less_nat_alt)
  then show ?thesis using False unat_byte_less [of rng] by simp
qed

lemma sat_inc_nonzero: "(if rng < 255 then rng + 1 else rng :: byte) \<noteq> 0"
proof (cases "rng < 255")
  case True
  then have "unat rng < 255" by (simp add: word_less_nat_alt)
  then have "unat (rng + 1) = unat rng + 1" by (simp add: unat_word_ariths)
  then have "unat (rng + 1) \<noteq> unat (0 :: byte)" by simp
  then have "rng + 1 \<noteq> 0" by metis
  then show ?thesis using True by simp
next
  case False
  then have "rng \<noteq> 0" by auto
  then show ?thesis using False by simp
qed

lemma of_nat_byte_eq_iff: "n < 256 \<Longrightarrow> (of_nat n = (w :: byte)) = (n = unat w)"
proof
  assume n: "n < 256" and "of_nat n = w"
  then have "unat w = n mod 256" by (auto simp: unat_of_nat)
  with n show "n = unat w" by simp
next
  assume "n = unat w"
  then show "of_nat n = w" by simp
qed

subsection \<open>The counting loops\<close>

text \<open>
  The starter loop on an ECHO line that is still high at the end of the first \<open>j\<close> ticks
  and low at the end of the next one: it makes \<open>j + 1\<close> passes, and the counter stops
  at 255.
\<close>

lemma count_range_returns:
  "\<forall>i<j. echo (reads s + i) \<Longrightarrow> \<not> echo (reads s + j) \<Longrightarrow>
   count_range echo rng s =
     Some (of_nat (min (unat rng + Suc j) 255),
           s\<lparr>reads := reads s + Suc j,
             log := log s @ concat (replicate j [Delay_us 58, Echo_read True])
                      @ [Delay_us 58, Echo_read False]\<rparr>)"
proof (induction j arbitrary: s rng)
  case 0
  have "(if rng < 255 then rng + 1 else rng) = of_nat (unat (if rng < 255 then rng + 1 else rng))"
    by simp
  then have "(if rng < 255 then rng + 1 else rng) = of_nat (min (unat rng + 1) 255)"
    by (simp only: sat_inc_unat)
  then show ?case using 0
    by (subst count_range.simps) (simp add: read_ECHO_def delay_us_def Let_def)
next
  case (Suc j)
  let ?rng' = "if rng < 255 then rng + 1 else rng"
  let ?s' = "s\<lparr>reads := Suc (reads s), log := log s @ [Delay_us 58, Echo_read True]\<rparr>"
  from Suc.prems(1) have high: "echo (reads s)" by force
  have "echo (reads ?s' + i)" if "i < j" for i
    using Suc.prems(1) that by (auto dest: spec [of _ "Suc i"])
  moreover have "\<not> echo (reads ?s' + j)" using Suc.prems(2) by simp
  ultimately have "count_range echo ?rng' ?s' =
     Some (of_nat (min (unat ?rng' + Suc j) 255),
           ?s'\<lparr>reads := reads ?s' + Suc j,
             log := log ?s' @ concat (replicate j [Delay_us 58, Echo_read True])
                      @ [Delay_us 58, Echo_read False]\<rparr>)"
    by (intro Suc.IH) auto
  moreover have "min (unat ?rng' + Suc j) 255 = min (unat rng + Suc (Suc j)) 255"
    unfolding sat_inc_unat by simp
  ultimately show ?case using high
    by (subst count_range.simps) (simp add: read_ECHO_def delay_us_def Let_def)
qed

lemma count_range_nonzero:
  assumes ret: "count_range echo rng s = Some y"
  shows "fst y \<noteq> 0"
proof (rule count_range.raw_induct
         [where P = "\<lambda>echo rng s y. fst y \<noteq> 0", OF _ ret])
  fix f :: "(nat \<Rightarrow> bool) \<Rightarrow> byte \<Rightarrow> hw \<Rightarrow> (byte \<times> hw) option" and echo rng s y
  assume IH: "\<And>e r t y. f e r t = Some y \<Longrightarrow> fst y \<noteq> 0"
    and step: "(let s1 = delay_us 58 s;
                    rng' = (if rng < 255 then rng + 1 else rng)
                in case read_ECHO echo s1 of
                     (v, s2) \<Rightarrow> if v = True then f echo rng' s2 else Some (rng', s2)) = Some y"
  show "fst y \<noteq> 0"
  proof (cases "echo (reads s)")
    case True
    with step show ?thesis
      by (auto simp: Let_def read_ECHO_def delay_us_def dest: IH)
  next
    case False
    with step have "fst y = (if rng < 255 then rng + 1 else rng)"
      by (auto simp: Let_def read_ECHO_def delay_us_def)
    then show ?thesis using sat_inc_nonzero [of rng] by simp
  qed
qed

text \<open>
  The revised loop, as long as the counter does not meet \<open>maxRange\<close>, and when it does.
\<close>

lemma count_range_revised_returns:
  "\<forall>i<j. echo (reads s + i) \<Longrightarrow> \<not> echo (reads s + j) \<Longrightarrow>
   \<forall>i\<le>j. rng + of_nat (Suc i) \<noteq> maxRange \<Longrightarrow>
   count_range_revised echo maxRange rng s =
     Some (rng + of_nat (Suc j),
           s\<lparr>reads := reads s + Suc j,
             log := log s @ concat (replicate j [Delay_us 58, Echo_read True])
                      @ [Delay_us 58, Echo_read False]\<rparr>)"
proof (induction j arbitrary: s rng)
  case 0
  then show ?case
    by (subst count_range_revised.simps) (simp add: read_ECHO_def delay_us_def Let_def)
next
  case (Suc j)
  let ?s' = "s\<lparr>reads := Suc (reads s), log := log s @ [Delay_us 58, Echo_read True]\<rparr>"
  from Suc.prems(1) have high: "echo (reads s)" by force
  from Suc.prems(3) have go: "rng + 1 \<noteq> maxRange" by force
  have "echo (reads ?s' + i)" if "i < j" for i
    using Suc.prems(1) that by (auto dest: spec [of _ "Suc i"])
  moreover have "\<not> echo (reads ?s' + j)" using Suc.prems(2) by simp
  moreover have "rng + 1 + of_nat (Suc i) \<noteq> maxRange" if "i \<le> j" for i
    using Suc.prems(3) that by (auto dest!: spec [of _ "Suc i"] simp: add.assoc)
  ultimately have "count_range_revised echo maxRange (rng + 1) ?s' =
     Some (rng + 1 + of_nat (Suc j),
           ?s'\<lparr>reads := reads ?s' + Suc j,
             log := log ?s' @ concat (replicate j [Delay_us 58, Echo_read True])
                      @ [Delay_us 58, Echo_read False]\<rparr>)"
    by (intro Suc.IH) auto
  then show ?case using high go
    by (subst count_range_revised.simps)
       (simp add: read_ECHO_def delay_us_def Let_def add.assoc)
qed

lemma count_range_revised_cutoff:
  "\<forall>i<j. echo (reads s + i) \<Longrightarrow>
   \<forall>i<j. rng + of_nat (Suc i) \<noteq> maxRange \<Longrightarrow> rng + of_nat (Suc j) = maxRange \<Longrightarrow>
   count_range_revised echo maxRange rng s =
     Some (0,
           s\<lparr>reads := reads s + j,
             log := log s @ concat (replicate j [Delay_us 58, Echo_read True])
                      @ [Delay_us 58]\<rparr>)"
proof (induction j arbitrary: s rng)
  case 0
  then show ?case
    by (subst count_range_revised.simps) (simp add: read_ECHO_def delay_us_def Let_def)
next
  case (Suc j)
  let ?s' = "s\<lparr>reads := Suc (reads s), log := log s @ [Delay_us 58, Echo_read True]\<rparr>"
  from Suc.prems(1) have high: "echo (reads s)" by force
  from Suc.prems(2) have go: "rng + 1 \<noteq> maxRange" by force
  have "echo (reads ?s' + i)" if "i < j" for i
    using Suc.prems(1) that by (auto dest: spec [of _ "Suc i"])
  moreover have "rng + 1 + of_nat (Suc i) \<noteq> maxRange" if "i < j" for i
    using Suc.prems(2) that by (auto dest!: spec [of _ "Suc i"] simp: add.assoc)
  moreover have "rng + 1 + of_nat (Suc j) = maxRange"
    using Suc.prems(3) by (simp add: add.assoc)
  ultimately have "count_range_revised echo maxRange (rng + 1) ?s' =
     Some (0,
           ?s'\<lparr>reads := reads ?s' + j,
             log := log ?s' @ concat (replicate j [Delay_us 58, Echo_read True])
                      @ [Delay_us 58]\<rparr>)"
    by (intro Suc.IH) auto
  then show ?case using high go
    by (subst count_range_revised.simps)
       (simp add: read_ECHO_def delay_us_def Let_def add.assoc)
qed

lemma count_range_revised_below:
  assumes ret: "count_range_revised echo maxRange rng s = Some y"
    and below: "rng < maxRange"
  shows "fst y < maxRange"
proof -
  have "rng < maxRange \<longrightarrow> fst y < maxRange"
  proof (rule count_range_revised.raw_induct
         [where P = "\<lambda>echo maxRange rng s y. rng < maxRange \<longrightarrow> fst y < maxRange", OF _ ret])
    fix f :: "(nat \<Rightarrow> bool) \<Rightarrow> byte \<Rightarrow> byte \<Rightarrow> hw \<Rightarrow> (byte \<times> hw) option"
      and echo maxRange rng s y
    assume IH: "\<And>e m r t y. f e m r t = Some y \<Longrightarrow> r < m \<longrightarrow> fst y < m"
      and step: "(let s1 = delay_us 58 s;
                      rng' = rng + 1
                  in if rng' = maxRange then Some (0, s1)
                     else case read_ECHO echo s1 of
                            (v, s2) \<Rightarrow> if v = True then f echo maxRange rng' s2
                                       else Some (rng', s2)) = Some y"
    show "rng < maxRange \<longrightarrow> fst y < maxRange"
    proof
      assume lt: "rng < maxRange"
      then have pos: "0 < maxRange" by (auto simp: word_less_nat_alt)
      show "fst y < maxRange"
      proof (cases "rng + 1 = maxRange")
        case True
        with step pos show ?thesis by (auto simp: Let_def)
      next
        case False
        from lt have "rng + 1 \<le> maxRange" by (rule inc_le)
        with False have lt': "rng + 1 < maxRange" by simp
        show ?thesis
        proof (cases "echo (reads s)")
          case True
          with step False have "f echo maxRange (rng + 1) (snd (read_ECHO echo (delay_us 58 s))) = Some y"
            by (auto simp: Let_def read_ECHO_def delay_us_def)
          from IH [OF this] lt' show ?thesis by simp
        next
          case echo_low: False
          with step False have "fst y = rng + 1"
            by (auto simp: Let_def read_ECHO_def delay_us_def)
          with lt' show ?thesis by simp
        qed
      qed
    qed
  qed
  with below show ?thesis by simp
qed

subsection \<open>The two range functions on one echo pulse\<close>

text \<open>
  The ECHO line is low for \<open>k\<close> reads, then high for \<open>D\<close> reads (the read that ends the
  wait and the reads at the end of the first \<open>D - 1\<close> ticks), then low at the end of
  tick \<open>D\<close>. For the revised function the line may first be high for \<open>p\<close> reads, the
  rest of an earlier pulse, and must then be read low once.
\<close>

lemma sonar_range_pulse:
  assumes D: "1 \<le> D"
    and lows: "\<forall>i<k. \<not> echo (reads s + i)"
    and highs: "\<forall>i<D. echo (reads s + k + i)"
    and ends: "\<not> echo (reads s + k + D)"
  shows "sonar_range echo s =
     Some (of_nat (min D 255),
           s\<lparr>LATC := unset_bit 0 (set_bit 0 (LATC s)),
             reads := reads s + k + D + 1,
             log := log s @ [Trig_write True, Delay_us 20, Trig_write False]
                      @ replicate k (Echo_read False) @ [Echo_read True]
                      @ concat (replicate (D - 1) [Delay_us 58, Echo_read True])
                      @ [Delay_us 58, Echo_read False]\<rparr>)"
proof -
  define s3 where "s3 = write_TRIG False (delay_us 20 (write_TRIG True s))"
  define s4 where "s4 = s3\<lparr>reads := reads s3 + k + 1,
                   log := log s3 @ replicate k (Echo_read False) @ [Echo_read True]\<rparr>"
  have r3: "reads s3 = reads s" by (simp add: s3_def)
  have r4: "reads s4 = reads s + k + 1" by (simp add: s4_def r3)
  from D have "echo (reads s + k + 0)" by (intro highs [rule_format]) simp
  then have "echo (reads s3 + k)" by (simp add: r3)
  with lows have w: "wait_echo_start echo s3 = Some s4"
    unfolding s4_def by (intro wait_echo_start_returns) (simp_all add: r3)
  have "echo (reads s4 + i)" if "i < D - 1" for i
  proof -
    from that have "Suc i < D" by simp
    then have "echo (reads s + k + Suc i)" by (rule highs [rule_format])
    then show ?thesis by (simp add: r4)
  qed
  moreover have "\<not> echo (reads s4 + (D - 1))" using ends D by (simp add: r4)
  ultimately have c: "count_range echo 0 s4 =
     Some (of_nat (min (unat (0 :: byte) + Suc (D - 1)) 255),
           s4\<lparr>reads := reads s4 + Suc (D - 1),
             log := log s4 @ concat (replicate (D - 1) [Delay_us 58, Echo_read True])
                      @ [Delay_us 58, Echo_read False]\<rparr>)"
    by (intro count_range_returns) auto
  have "sonar_range echo s = count_range echo 0 s4"
    by (simp add: sonar_range_def Let_def s3_def [symmetric] w)
  also note c
  finally show ?thesis using D
    by (simp add: s4_def s3_def write_TRIG_def delay_us_def)
qed

lemma sonar_range_revised_returns:
  assumes D: "1 \<le> D"
    and busy: "\<forall>i<p. echo (reads s + i)"
    and idle: "\<not> echo (reads s + p)"
    and lows: "\<forall>i<k. \<not> echo (reads s + p + 1 + i)"
    and highs: "\<forall>i<D. echo (reads s + p + 1 + k + i)"
    and ends: "\<not> echo (reads s + p + 1 + k + D)"
    and nocut: "\<forall>i<D. of_nat (Suc i) \<noteq> maxRange"
  shows "sonar_range_revised echo maxRange s =
     Some (of_nat D,
           s\<lparr>LATC := unset_bit 0 (set_bit 0 (LATC s)),
             reads := reads s + p + k + D + 2,
             log := log s @ replicate p (Echo_read True)
                      @ [Echo_read False, Delay_ms 1,
                         Trig_write True, Delay_us 20, Trig_write False]
                      @ replicate k (Echo_read False) @ [Echo_read True]
                      @ concat (replicate (D - 1) [Delay_us 58, Echo_read True])
                      @ [Delay_us 58, Echo_read False]\<rparr>)"
proof -
  define s1 where "s1 = s\<lparr>reads := reads s + p + 1,
                   log := log s @ replicate p (Echo_read True) @ [Echo_read False]\<rparr>"
  define s5 where "s5 = write_TRIG False (delay_us 20 (write_TRIG True (delay_ms 1 s1)))"
  define s6 where "s6 = s5\<lparr>reads := reads s5 + k + 1,
                   log := log s5 @ replicate k (Echo_read False) @ [Echo_read True]\<rparr>"
  have r5: "reads s5 = reads s + p + 1" by (simp add: s5_def s1_def)
  have r6: "reads s6 = reads s + p + 1 + k + 1" by (simp add: s6_def r5)
  from busy idle have w1: "wait_echo_end echo s = Some s1"
    unfolding s1_def by (rule wait_echo_end_returns)
  from D have "echo (reads s + p + 1 + k + 0)" by (intro highs [rule_format]) simp
  then have "echo (reads s5 + k)" by (simp add: r5)
  with lows have w2: "wait_echo_start echo s5 = Some s6"
    unfolding s6_def by (intro wait_echo_start_returns) (simp_all add: r5)
  have "echo (reads s6 + i)" if "i < D - 1" for i
  proof -
    from that have "Suc i < D" by simp
    then have "echo (reads s + p + 1 + k + Suc i)" by (rule highs [rule_format])
    then show ?thesis by (simp add: r6)
  qed
  moreover have "\<not> echo (reads s6 + (D - 1))" using ends D by (simp add: r6)
  moreover have "\<forall>i\<le>D - 1. 0 + of_nat (Suc i) \<noteq> maxRange"
    using nocut D by (auto simp del: of_nat_Suc)
  ultimately have c: "count_range_revised echo maxRange 0 s6 =
     Some (0 + of_nat (Suc (D - 1)),
           s6\<lparr>reads := reads s6 + Suc (D - 1),
             log := log s6 @ concat (replicate (D - 1) [Delay_us 58, Echo_read True])
                      @ [Delay_us 58, Echo_read False]\<rparr>)"
    by (intro count_range_revised_returns) auto
  have "sonar_range_revised echo maxRange s = count_range_revised echo maxRange 0 s6"
    by (simp only: sonar_range_revised_def Let_def w1 Option.bind.simps
          s5_def [symmetric] w2)
  also note c
  finally show ?thesis using D
    by (simp add: s6_def s5_def s1_def write_TRIG_def delay_us_def delay_ms_def)
qed

lemma sonar_range_revised_cutoff:
  assumes m: "1 \<le> m"
    and busy: "\<forall>i<p. echo (reads s + i)"
    and idle: "\<not> echo (reads s + p)"
    and lows: "\<forall>i<k. \<not> echo (reads s + p + 1 + i)"
    and highs: "\<forall>i<m. echo (reads s + p + 1 + k + i)"
    and nocut: "\<forall>i<m - 1. of_nat (Suc i) \<noteq> maxRange"
    and cut: "of_nat m = maxRange"
  shows "sonar_range_revised echo maxRange s =
     Some (0,
           s\<lparr>LATC := unset_bit 0 (set_bit 0 (LATC s)),
             reads := reads s + p + k + m + 1,
             log := log s @ replicate p (Echo_read True)
                      @ [Echo_read False, Delay_ms 1,
                         Trig_write True, Delay_us 20, Trig_write False]
                      @ replicate k (Echo_read False) @ [Echo_read True]
                      @ concat (replicate (m - 1) [Delay_us 58, Echo_read True])
                      @ [Delay_us 58]\<rparr>)"
proof -
  define s1 where "s1 = s\<lparr>reads := reads s + p + 1,
                   log := log s @ replicate p (Echo_read True) @ [Echo_read False]\<rparr>"
  define s5 where "s5 = write_TRIG False (delay_us 20 (write_TRIG True (delay_ms 1 s1)))"
  define s6 where "s6 = s5\<lparr>reads := reads s5 + k + 1,
                   log := log s5 @ replicate k (Echo_read False) @ [Echo_read True]\<rparr>"
  have r5: "reads s5 = reads s + p + 1" by (simp add: s5_def s1_def)
  have r6: "reads s6 = reads s + p + 1 + k + 1" by (simp add: s6_def r5)
  from busy idle have w1: "wait_echo_end echo s = Some s1"
    unfolding s1_def by (rule wait_echo_end_returns)
  from m have "echo (reads s + p + 1 + k + 0)" by (intro highs [rule_format]) simp
  then have "echo (reads s5 + k)" by (simp add: r5)
  with lows have w2: "wait_echo_start echo s5 = Some s6"
    unfolding s6_def by (intro wait_echo_start_returns) (simp_all add: r5)
  have "echo (reads s6 + i)" if "i < m - 1" for i
  proof -
    from that have "Suc i < m" by simp
    then have "echo (reads s + p + 1 + k + Suc i)" by (rule highs [rule_format])
    then show ?thesis by (simp add: r6)
  qed
  moreover have "\<forall>i<m - 1. 0 + of_nat (Suc i) \<noteq> maxRange"
    using nocut by (auto simp del: of_nat_Suc)
  moreover have "0 + of_nat (Suc (m - 1)) = maxRange"
    using cut m by (simp del: of_nat_Suc)
  ultimately have c: "count_range_revised echo maxRange 0 s6 =
     Some (0,
           s6\<lparr>reads := reads s6 + (m - 1),
             log := log s6 @ concat (replicate (m - 1) [Delay_us 58, Echo_read True])
                      @ [Delay_us 58]\<rparr>)"
    by (intro count_range_revised_cutoff) auto
  have "sonar_range_revised echo maxRange s = count_range_revised echo maxRange 0 s6"
    by (simp only: sonar_range_revised_def Let_def w1 Option.bind.simps
          s5_def [symmetric] w2)
  also note c
  finally show ?thesis using m
    by (simp add: s6_def s5_def s1_def write_TRIG_def delay_us_def delay_ms_def)
qed

lemma sonar_range_hangs:
  "\<forall>i. \<not> echo (reads s + i) \<Longrightarrow> sonar_range echo s = None"
proof -
  assume never: "\<forall>i. \<not> echo (reads s + i)"
  have "wait_echo_start echo (write_TRIG False (delay_us 20 (write_TRIG True s))) = None"
    by (rule wait_echo_start_hangs) (simp add: never)
  then show ?thesis by (simp add: sonar_range_def Let_def)
qed

lemma sonar_range_returns:
  assumes kj: "k < j" and up: "echo (reads s + k)" and down: "\<not> echo (reads s + j)"
  shows "\<exists>r s'. sonar_range echo s = Some (r, s')"
proof -
  define k0 where "k0 = (LEAST i. echo (reads s + i))"
  have k0: "echo (reads s + k0)" unfolding k0_def using up by (rule LeastI)
  have k0_le: "k0 \<le> k" unfolding k0_def using up by (rule Least_le)
  have lows: "\<forall>i<k0. \<not> echo (reads s + i)"
    unfolding k0_def using not_less_Least by blast
  define d0 where "d0 = (LEAST d. \<not> echo (reads s + k0 + 1 + d))"
  from kj k0_le have "reads s + k0 + 1 + (j - k0 - 1) = reads s + j" by simp
  with down have "\<not> echo (reads s + k0 + 1 + (j - k0 - 1))" by simp
  then have d0: "\<not> echo (reads s + k0 + 1 + d0)"
    unfolding d0_def by (rule LeastI [where P = "\<lambda>d. \<not> echo (reads s + k0 + 1 + d)"])
  have before: "echo (reads s + k0 + 1 + d)" if "d < d0" for d
    using that not_less_Least [of d "\<lambda>d. \<not> echo (reads s + k0 + 1 + d)"]
    unfolding d0_def by blast
  have highs: "\<forall>i<Suc d0. echo (reads s + k0 + i)"
  proof (intro allI impI)
    fix i assume i: "i < Suc d0"
    show "echo (reads s + k0 + i)"
    proof (cases i)
      case 0
      with k0 show ?thesis by simp
    next
      case (Suc d)
      with i have "d < d0" by simp
      then have "echo (reads s + k0 + 1 + d)" by (rule before)
      with Suc show ?thesis by simp
    qed
  qed
  have ends: "\<not> echo (reads s + k0 + Suc d0)" using d0 by simp
  have "1 \<le> Suc d0" by simp
  from sonar_range_pulse [OF this lows highs ends] show ?thesis by blast
qed

subsection \<open>Bounded runs and the functions they approximate\<close>

text \<open>
  A bounded run that returns gives the result of the function, and every result of the
  function is given by a bounded run with a budget that is large enough.
\<close>

lemma wait_echo_end_upto_sound:
  "wait_echo_end_upto n echo s = Returned s' n' \<Longrightarrow> wait_echo_end echo s = Some s'"
proof (induction n arbitrary: s)
  case 0
  then show ?case by simp
next
  case (Suc n)
  then show ?case
    by (subst wait_echo_end.simps) (auto simp: read_ECHO_def split: if_splits)
qed

lemma wait_echo_start_upto_sound:
  "wait_echo_start_upto n echo s = Returned s' n' \<Longrightarrow> wait_echo_start echo s = Some s'"
proof (induction n arbitrary: s)
  case 0
  then show ?case by simp
next
  case (Suc n)
  then show ?case
    by (subst wait_echo_start.simps) (auto simp: read_ECHO_def split: if_splits)
qed

lemma count_range_revised_upto_sound:
  "count_range_revised_upto n echo maxRange rng s = Returned y n' \<Longrightarrow>
   count_range_revised echo maxRange rng s = Some y"
proof (induction n arbitrary: s rng)
  case 0
  then show ?case by simp
next
  case (Suc n)
  then show ?case
    by (subst count_range_revised.simps)
       (auto simp: read_ECHO_def Let_def split: if_splits)
qed

lemma sonar_range_revised_upto_sound:
  "sonar_range_revised_upto n echo maxRange s = Returned y n' \<Longrightarrow>
   sonar_range_revised echo maxRange s = Some y"
  by (auto simp: sonar_range_revised_upto_def sonar_range_revised_def Let_def
      split: run.splits
      dest!: wait_echo_end_upto_sound wait_echo_start_upto_sound
        count_range_revised_upto_sound)

lemma wait_echo_end_upto_complete:
  assumes ret: "wait_echo_end echo s = Some s'"
  shows "\<exists>n. \<forall>m. wait_echo_end_upto (n + m) echo s = Returned s' m"
proof (rule wait_echo_end.raw_induct
    [where P = "\<lambda>echo s s'. \<exists>n. \<forall>m. wait_echo_end_upto (n + m) echo s = Returned s' m",
      OF _ ret])
  fix f :: "(nat \<Rightarrow> bool) \<Rightarrow> hw \<Rightarrow> hw option" and echo s y
  assume IH: "\<And>e t y. f e t = Some y \<Longrightarrow>
                \<exists>n. \<forall>m. wait_echo_end_upto (n + m) e t = Returned y m"
    and step: "(case read_ECHO echo s of
                  (v, s') \<Rightarrow> if v = True then f echo s' else Some s') = Some y"
  show "\<exists>n. \<forall>m. wait_echo_end_upto (n + m) echo s = Returned y m"
  proof (cases "echo (reads s)")
    case True
    with step have "f echo (snd (read_ECHO echo s)) = Some y"
      by (simp add: read_ECHO_def)
    from IH [OF this] obtain n
      where "\<forall>m. wait_echo_end_upto (n + m) echo (snd (read_ECHO echo s)) = Returned y m" ..
    with True have "\<forall>m. wait_echo_end_upto (Suc n + m) echo s = Returned y m"
      by (simp add: read_ECHO_def)
    then show ?thesis ..
  next
    case False
    with step have "\<forall>m. wait_echo_end_upto (Suc 0 + m) echo s = Returned y m"
      by (simp add: read_ECHO_def)
    then show ?thesis ..
  qed
qed

lemma wait_echo_start_upto_complete:
  assumes ret: "wait_echo_start echo s = Some s'"
  shows "\<exists>n. \<forall>m. wait_echo_start_upto (n + m) echo s = Returned s' m"
proof (rule wait_echo_start.raw_induct
    [where P = "\<lambda>echo s s'. \<exists>n. \<forall>m. wait_echo_start_upto (n + m) echo s = Returned s' m",
      OF _ ret])
  fix f :: "(nat \<Rightarrow> bool) \<Rightarrow> hw \<Rightarrow> hw option" and echo s y
  assume IH: "\<And>e t y. f e t = Some y \<Longrightarrow>
                \<exists>n. \<forall>m. wait_echo_start_upto (n + m) e t = Returned y m"
    and step: "(case read_ECHO echo s of
                  (v, s') \<Rightarrow> if v = False then f echo s' else Some s') = Some y"
  show "\<exists>n. \<forall>m. wait_echo_start_upto (n + m) echo s = Returned y m"
  proof (cases "echo (reads s)")
    case False
    with step have "f echo (snd (read_ECHO echo s)) = Some y"
      by (simp add: read_ECHO_def)
    from IH [OF this] obtain n
      where "\<forall>m. wait_echo_start_upto (n + m) echo (snd (read_ECHO echo s)) = Returned y m" ..
    with False have "\<forall>m. wait_echo_start_upto (Suc n + m) echo s = Returned y m"
      by (simp add: read_ECHO_def)
    then show ?thesis ..
  next
    case True
    with step have "\<forall>m. wait_echo_start_upto (Suc 0 + m) echo s = Returned y m"
      by (simp add: read_ECHO_def)
    then show ?thesis ..
  qed
qed

lemma count_range_revised_upto_complete:
  assumes ret: "count_range_revised echo maxRange rng s = Some y"
  shows "\<exists>n. \<forall>m. count_range_revised_upto (n + m) echo maxRange rng s = Returned y m"
proof (rule count_range_revised.raw_induct
    [where P = "\<lambda>echo maxRange rng s y.
        \<exists>n. \<forall>m. count_range_revised_upto (n + m) echo maxRange rng s = Returned y m",
      OF _ ret])
  fix f :: "(nat \<Rightarrow> bool) \<Rightarrow> byte \<Rightarrow> byte \<Rightarrow> hw \<Rightarrow> (byte \<times> hw) option"
    and echo maxRange rng s y
  assume IH: "\<And>e M r t y. f e M r t = Some y \<Longrightarrow>
                \<exists>n. \<forall>m. count_range_revised_upto (n + m) e M r t = Returned y m"
    and step: "(let s1 = delay_us 58 s;
                    rng' = rng + 1
                in if rng' = maxRange then Some (0, s1)
                   else case read_ECHO echo s1 of
                          (v, s2) \<Rightarrow> if v = True then f echo maxRange rng' s2
                                     else Some (rng', s2)) = Some y"
  show "\<exists>n. \<forall>m. count_range_revised_upto (n + m) echo maxRange rng s = Returned y m"
  proof (cases "rng + 1 \<noteq> maxRange \<and> echo (reads s)")
    case True
    with step
    have "f echo maxRange (rng + 1) (snd (read_ECHO echo (delay_us 58 s))) = Some y"
      by (simp add: read_ECHO_def Let_def)
    from IH [OF this] obtain n
      where "\<forall>m. count_range_revised_upto (n + m) echo maxRange (rng + 1)
                   (snd (read_ECHO echo (delay_us 58 s))) = Returned y m" ..
    with True
    have "\<forall>m. count_range_revised_upto (Suc n + m) echo maxRange rng s = Returned y m"
      by (simp add: read_ECHO_def Let_def)
    then show ?thesis ..
  next
    case False
    with step
    have "\<forall>m. count_range_revised_upto (Suc 0 + m) echo maxRange rng s = Returned y m"
      by (auto simp: read_ECHO_def Let_def split: if_splits)
    then show ?thesis ..
  qed
qed

lemma sonar_range_revised_upto_complete:
  assumes "sonar_range_revised echo maxRange s = Some y"
  shows "\<exists>n. sonar_range_revised_upto n echo maxRange s = Returned y 0"
proof -
  define post where "post s1 = write_TRIG False (delay_us 20 (write_TRIG True (delay_ms 1 s1)))"
    for s1
  from assms obtain s1 s6 where w1: "wait_echo_end echo s = Some s1"
    and w2: "wait_echo_start echo (post s1) = Some s6"
    and c: "count_range_revised echo maxRange 0 s6 = Some y"
    by (auto simp: sonar_range_revised_def Let_def post_def split: Option.bind_splits)
  from wait_echo_end_upto_complete [OF w1] obtain n1
    where n1: "\<And>m. wait_echo_end_upto (n1 + m) echo s = Returned s1 m" by blast
  from wait_echo_start_upto_complete [OF w2] obtain n2
    where n2: "\<And>m. wait_echo_start_upto (n2 + m) echo (post s1) = Returned s6 m" by blast
  from count_range_revised_upto_complete [OF c] obtain n3
    where n3: "\<And>m. count_range_revised_upto (n3 + m) echo maxRange 0 s6 = Returned y m"
    by blast
  have "sonar_range_revised_upto (n1 + (n2 + (n3 + 0))) echo maxRange s = Returned y 0"
    unfolding sonar_range_revised_upto_def n1 run.case Let_def post_def [symmetric] n2 n3 ..
  then show ?thesis ..
qed

lemma sonar_range_revised_upto_agrees:
  "(\<exists>n n'. sonar_range_revised_upto n echo maxRange s = Returned y n') =
   (sonar_range_revised echo maxRange s = Some y)"
proof
  assume "\<exists>n n'. sonar_range_revised_upto n echo maxRange s = Returned y n'"
  then show "sonar_range_revised echo maxRange s = Some y"
    by (auto dest: sonar_range_revised_upto_sound)
next
  assume "sonar_range_revised echo maxRange s = Some y"
  from sonar_range_revised_upto_complete [OF this] show
    "\<exists>n n'. sonar_range_revised_upto n echo maxRange s = Returned y n'" by blast
qed

text \<open>
  What a bounded run has written to the log: reads of ECHO that returned high, then, if
  the first loop has exited, the read that returned low, the 1 ms delay and the trigger
  pulse, and after these nothing that sets TRIG.
\<close>

lemma wait_echo_end_upto_log:
  "\<exists>p. case wait_echo_end_upto n echo s of
          Running s' \<Rightarrow> log s' = log s @ replicate p (Echo_read True)
        | Returned s' n' \<Rightarrow>
            log s' = log s @ replicate p (Echo_read True) @ [Echo_read False]"
proof (induction n arbitrary: s)
  case 0
  have "log s = log s @ replicate 0 (Echo_read True)" by simp
  then show ?case by (auto intro: exI [of _ 0])
next
  case (Suc n)
  show ?case
  proof (cases "echo (reads s)")
    case True
    from Suc [where s = "snd (read_ECHO echo s)"] obtain p where
      "case wait_echo_end_upto n echo (snd (read_ECHO echo s)) of
          Running s' \<Rightarrow> log s' = log (snd (read_ECHO echo s)) @ replicate p (Echo_read True)
        | Returned s' n' \<Rightarrow>
            log s' = log (snd (read_ECHO echo s)) @ replicate p (Echo_read True) @ [Echo_read False]"
      ..
    with True have
      "case wait_echo_end_upto (Suc n) echo s of
          Running s' \<Rightarrow> log s' = log s @ replicate (Suc p) (Echo_read True)
        | Returned s' n' \<Rightarrow>
            log s' = log s @ replicate (Suc p) (Echo_read True) @ [Echo_read False]"
      by (simp add: read_ECHO_def split: run.splits)
    then show ?thesis ..
  next
    case False
    then have
      "case wait_echo_end_upto (Suc n) echo s of
          Running s' \<Rightarrow> log s' = log s @ replicate 0 (Echo_read True)
        | Returned s' n' \<Rightarrow>
            log s' = log s @ replicate 0 (Echo_read True) @ [Echo_read False]"
      by (simp add: read_ECHO_def)
    then show ?thesis ..
  qed
qed

lemma wait_echo_start_upto_log:
  "\<exists>es. log (run_hw (wait_echo_start_upto n echo s)) = log s @ es \<and>
        Trig_write True \<notin> set es"
proof (induction n arbitrary: s)
  case 0
  then show ?case by simp
next
  case (Suc n)
  from Suc [where s = "snd (read_ECHO echo s)"] obtain es where
    "log (run_hw (wait_echo_start_upto n echo (snd (read_ECHO echo s))))
       = log (snd (read_ECHO echo s)) @ es" and "Trig_write True \<notin> set es"
    by blast
  then show ?case
    by (cases "echo (reads s)") (auto simp: read_ECHO_def)
qed

lemma count_range_revised_upto_log:
  "\<exists>es. log (hw_of (count_range_revised_upto n echo maxRange rng s)) = log s @ es \<and>
        Trig_write True \<notin> set es"
proof (induction n arbitrary: s rng)
  case 0
  then show ?case by simp
next
  case (Suc n)
  from Suc [where s = "snd (read_ECHO echo (delay_us 58 s))" and rng = "rng + 1"]
  obtain es where
    "log (hw_of (count_range_revised_upto n echo maxRange (rng + 1)
            (snd (read_ECHO echo (delay_us 58 s)))))
       = log (snd (read_ECHO echo (delay_us 58 s))) @ es" and "Trig_write True \<notin> set es"
    by blast
  then show ?case
    by (cases "echo (reads s)") (auto simp: read_ECHO_def delay_us_def Let_def)
qed

lemma sonar_range_revised_upto_log:
  "\<exists>p rest. log (hw_of (sonar_range_revised_upto n echo maxRange s))
               = log s @ replicate p (Echo_read True) @ rest \<and>
     (rest = [] \<or>
      (\<exists>tail. rest = [Echo_read False, Delay_ms 1,
                       Trig_write True, Delay_us 20, Trig_write False] @ tail \<and>
              Trig_write True \<notin> set tail))"
proof (cases "wait_echo_end_upto n echo s")
  case (Running s')
  with wait_echo_end_upto_log [where n = n and echo = echo and s = s] obtain p
    where "log s' = log s @ replicate p (Echo_read True)" by auto
  with Running show ?thesis
    by (auto simp: sonar_range_revised_upto_def)
next
  case (Returned s1 n1)
  define s5 where "s5 = write_TRIG False (delay_us 20 (write_TRIG True (delay_ms 1 s1)))"
  from Returned wait_echo_end_upto_log [where n = n and echo = echo and s = s] obtain p
    where l1: "log s1 = log s @ replicate p (Echo_read True) @ [Echo_read False]" by auto
  have l5: "log s5 = log s @ replicate p (Echo_read True) @
      [Echo_read False, Delay_ms 1, Trig_write True, Delay_us 20, Trig_write False]"
    by (simp add: s5_def l1 write_TRIG_def delay_us_def delay_ms_def)
  have unfold: "sonar_range_revised_upto n echo maxRange s =
      (case wait_echo_start_upto n1 echo s5 of
         Running s' \<Rightarrow> Running s'
       | Returned s6 n2 \<Rightarrow> count_range_revised_upto n2 echo maxRange 0 s6)"
    by (simp only: sonar_range_revised_upto_def Returned run.case Let_def s5_def)
  from wait_echo_start_upto_log [where n = n1 and echo = echo and s = s5] obtain es where
    es: "log (run_hw (wait_echo_start_upto n1 echo s5)) = log s5 @ es"
      "Trig_write True \<notin> set es" by blast
  show ?thesis
  proof (cases "wait_echo_start_upto n1 echo s5")
    case (Running s')
    with es unfold l5 have
      "log (hw_of (sonar_range_revised_upto n echo maxRange s))
         = log s @ replicate p (Echo_read True) @
           ([Echo_read False, Delay_ms 1, Trig_write True, Delay_us 20, Trig_write False] @ es)"
      by simp
    with es(2) show ?thesis by blast
  next
    case (Returned s6 n2)
    from count_range_revised_upto_log [where n = n2 and echo = echo and maxRange = maxRange and rng = 0 and s = s6] obtain es' where
      es': "log (hw_of (count_range_revised_upto n2 echo maxRange 0 s6)) = log s6 @ es'"
      "Trig_write True \<notin> set es'" by blast
    with Returned es unfold l5 have
      "log (hw_of (sonar_range_revised_upto n echo maxRange s))
         = log s @ replicate p (Echo_read True) @
           ([Echo_read False, Delay_ms 1, Trig_write True, Delay_us 20, Trig_write False]
            @ (es @ es'))"
      by simp
    moreover have "Trig_write True \<notin> set (es @ es')" using es(2) es'(2) by simp
    ultimately show ?thesis by blast
  qed
qed

lemma trig_index:
  assumes L: "L = replicate p (Echo_read True) @
      [Echo_read False, Delay_ms 1, Trig_write True, Delay_us 20, Trig_write False] @ tail"
    and quiet: "Trig_write True \<notin> set tail"
    and i: "i < length L" "L ! i = Trig_write True"
  shows "i = p + 2"
proof -
  define B where
    "B = [Echo_read False, Delay_ms 1, Trig_write True, Delay_us 20, Trig_write False]"
  have LB: "L = replicate p (Echo_read True) @ B @ tail" by (simp add: L B_def)
  have lenB: "length B = 5" by (simp add: B_def)
  have ge: "p \<le> i"
  proof (rule ccontr)
    assume "\<not> p \<le> i"
    then have "L ! i = Echo_read True" by (simp add: LB nth_append)
    with i(2) show False by simp
  qed
  then have at: "L ! i = (B @ tail) ! (i - p)" by (simp add: LB nth_append)
  have lt: "i - p < 5"
  proof (rule ccontr)
    assume "\<not> i - p < 5"
    then have far: "5 \<le> i - p" by simp
    then have "(B @ tail) ! (i - p) = tail ! (i - p - 5)" by (simp add: nth_append lenB)
    moreover from far i(1) have "i - p - 5 < length tail" by (simp add: LB lenB)
    ultimately have "Trig_write True \<in> set tail" using i(2) at by (metis nth_mem)
    with quiet show False ..
  qed
  then have "i - p = 0 \<or> i - p = 1 \<or> i - p = 2 \<or> i - p = 3 \<or> i - p = 4" by arith
  with i(2) at have "i - p = 2" by (auto simp: B_def)
  with ge show ?thesis by simp
qed

section \<open>The claims\<close>

text \<open>
  In the statements below an echo pulse of \<open>D\<close> ticks is an ECHO line that is read high
  \<open>D\<close> times in a row: once by the read that ends the wait for the pulse, and at the end
  of each of the first \<open>D - 1\<close> delays of 58 microseconds; the read at the end of delay
  \<open>D\<close> returns low. With \<open>D = 0\<close> the line is never read high.
\<close>

subsection \<open>C1: the starter function returns min(D, 255)\<close>

text \<open>
  Claim C1, as amended. For every echo pulse of \<open>D \<ge> 1\<close> ticks, whatever the number
  \<open>k\<close> of low reads before it and whatever the state the function starts in, the starter
  \<^verbatim>\<open>sonar_range\<close> returns \<open>min D 255\<close>. In particular 1000 ticks give 255: the
  counter stops at 255 and does not wrap.
\<close>

theorem sonar_range_returns_min:
  assumes "1 \<le> D"
    and "\<forall>i<k. \<not> echo (reads s + i)"
    and "\<forall>i<D. echo (reads s + k + i)"
    and "\<not> echo (reads s + k + D)"
  shows "map_option fst (sonar_range echo s) = Some (of_nat (min D 255))"
  using sonar_range_pulse [OF assms] by simp

theorem sonar_range_returns_min_witness:
  "(1::nat) \<le> 1000 \<and> map_option fst (sonar_range (echo_pulse 3 1000) hw_init) = Some 255"
  using sonar_range_returns_min [of 1000 3 "echo_pulse 3 1000" hw_init]
  by (simp add: echo_pulse_def hw_init_def)

text \<open>
  The claim as stated also covers \<open>D = 0\<close>, where \<open>min D 255\<close> is 0. There the
  function returns nothing at all: \<^verbatim>\<open>while(ECHO == 0);\<close> never exits.
\<close>

theorem sonar_range_zero_ticks:
  "sonar_range (echo_pulse 3 0) hw_init = None"
  by (rule sonar_range_hangs) (simp add: echo_pulse_def)

subsection \<open>C2: the revised function returns D below maxRange and 0 from maxRange on\<close>

text \<open>
  Claim C2, as amended. For every bound \<open>M > 0\<close> and every echo pulse of \<open>D \<ge> 1\<close> ticks
  that follows an idle ECHO line (after \<open>p\<close> reads that may still see an earlier pulse,
  one low read, and \<open>k\<close> more low reads), the revised \<^verbatim>\<open>sonar_range\<close> returns \<open>D\<close>
  when \<open>D < M\<close> and 0 when \<open>D \<ge> M\<close>.
\<close>

theorem sonar_range_revised_within_or_zero:
  assumes M: "0 < M" and D: "1 \<le> D"
    and busy: "\<forall>i<p. echo (reads s + i)"
    and idle: "\<not> echo (reads s + p)"
    and lows: "\<forall>i<k. \<not> echo (reads s + p + 1 + i)"
    and highs: "\<forall>i<D. echo (reads s + p + 1 + k + i)"
    and ends: "\<not> echo (reads s + p + 1 + k + D)"
  shows "map_option fst (sonar_range_revised echo M s) =
           Some (if D < unat M then of_nat D else 0)"
proof (cases "D < unat M")
  case True
  have "\<forall>i<D. of_nat (Suc i) \<noteq> M"
  proof (intro allI impI)
    fix i assume "i < D"
    with True have "Suc i < unat M" by simp
    moreover from this have "Suc i < 256" using unat_byte_less [of M] by simp
    ultimately show "of_nat (Suc i) \<noteq> M" by (simp add: of_nat_byte_eq_iff del: of_nat_Suc)
  qed
  from sonar_range_revised_returns [OF D busy idle lows highs ends this] True
  show ?thesis by simp
next
  case False
  define m where "m = unat M"
  from M have m1: "1 \<le> m" by (simp add: m_def word_less_nat_alt)
  from False have mD: "m \<le> D" by (simp add: m_def)
  have m256: "m < 256" using unat_byte_less [of M] by (simp add: m_def)
  have highs': "\<forall>i<m. echo (reads s + p + 1 + k + i)" using highs mD by simp
  have nocut: "\<forall>i<m - 1. of_nat (Suc i) \<noteq> M"
  proof (intro allI impI)
    fix i assume "i < m - 1"
    then have "Suc i < m" by simp
    with m256 show "of_nat (Suc i) \<noteq> M"
      by (simp add: of_nat_byte_eq_iff m_def del: of_nat_Suc)
  qed
  have cut: "of_nat m = M" by (simp add: m_def)
  from sonar_range_revised_cutoff [OF m1 busy idle lows highs' nocut cut] False
  show ?thesis by simp
qed

theorem sonar_range_revised_within_or_zero_witness:
  "(0::byte) < 90 \<and>
   map_option fst (sonar_range_revised (echo_pulse 3 15) 90 hw_init) = Some 15 \<and>
   map_option fst (sonar_range_revised (echo_pulse 3 90) 90 hw_init) = Some 0"
  using sonar_range_revised_within_or_zero [of 90 15 0 "echo_pulse 3 15" hw_init 2]
    sonar_range_revised_within_or_zero [of 90 90 0 "echo_pulse 3 90" hw_init 2]
  by (simp add: echo_pulse_def hw_init_def)

text \<open>
  The claim as stated also covers \<open>D = 0\<close>, which is below every \<open>M > 0\<close>, so that 0
  should be returned. With bound 90 and an ECHO line that is never high the function
  returns nothing: it triggers the sensor and then waits forever for the pulse.
\<close>

theorem sonar_range_revised_zero_ticks:
  "sonar_range_revised (echo_pulse 3 0) 90 hw_init = None"
proof -
  have "wait_echo_end (echo_pulse 3 0) hw_init =
     Some (hw_init\<lparr>reads := reads hw_init + 0 + 1,
             log := log hw_init @ replicate 0 (Echo_read True) @ [Echo_read False]\<rparr>)"
    by (rule wait_echo_end_returns) (simp_all add: echo_pulse_def)
  moreover have "wait_echo_start (echo_pulse 3 0) s = None" for s
    by (rule wait_echo_start_hangs) (simp add: echo_pulse_def)
  ultimately show ?thesis by (simp add: sonar_range_revised_def Let_def)
qed

subsection \<open>C3: maxRange = 0\<close>

text \<open>
  Claim C3 says that with \<^verbatim>\<open>maxRange\<close> 0 the revised function returns 0 for every
  pulse, on the first tick. The code compares with \<^verbatim>\<open>range == maxRange\<close> after
  \<^verbatim>\<open>range ++\<close>, so the counter is 1 at the first comparison and meets 0 only when the
  byte wraps at the 256th tick. On an ECHO line that is low at the first read and then
  carries a pulse of 15 ticks, the function called with 0 returns 15.
\<close>

theorem sonar_range_revised_maxRange_0:
  "map_option fst (sonar_range_revised (echo_pulse 1 15) 0 hw_init) = Some 15"
proof -
  have "\<forall>i<15. of_nat (Suc i) \<noteq> (0 :: byte)"
    by (simp add: of_nat_byte_eq_iff del: of_nat_Suc)
  from sonar_range_revised_returns [of 15 0 "echo_pulse 1 15" hw_init 0 0, OF _ _ _ _ _ _ this]
  show ?thesis by (simp add: echo_pulse_def hw_init_def)
qed

subsection \<open>C4: the LED cascade\<close>

text \<open>
  Claim C4. The number of LEDs that the cascade lights depends on \<^verbatim>\<open>distance\<close> alone
  and is found by the strict comparisons \<open>> 20\<close>, \<open>> 10\<close>, \<open>> 5\<close>, \<open>> 1\<close> taken in this
  order, the first that holds deciding: 4, 3, 2, 1 LEDs, and none when no comparison
  holds. At the boundaries: 21 gives 4; 20 and 11 give 3; 10 and 6 give 2; 5 and 2 give
  1; 1 and 0 give 0.
\<close>

theorem show_distance_levels:
  "leds_lit (LATC (show_distance s)) =
     (if distance s > 20 then 4 else if distance s > 10 then 3
      else if distance s > 5 then 2 else if distance s > 1 then 1 else 0) \<and>
   leds_lit (LATC (show_distance (s\<lparr>distance := 21\<rparr>))) = 4 \<and>
   leds_lit (LATC (show_distance (s\<lparr>distance := 20\<rparr>))) = 3 \<and>
   leds_lit (LATC (show_distance (s\<lparr>distance := 11\<rparr>))) = 3 \<and>
   leds_lit (LATC (show_distance (s\<lparr>distance := 10\<rparr>))) = 2 \<and>
   leds_lit (LATC (show_distance (s\<lparr>distance := 6\<rparr>))) = 2 \<and>
   leds_lit (LATC (show_distance (s\<lparr>distance := 5\<rparr>))) = 1 \<and>
   leds_lit (LATC (show_distance (s\<lparr>distance := 2\<rparr>))) = 1 \<and>
   leds_lit (LATC (show_distance (s\<lparr>distance := 1\<rparr>))) = 0 \<and>
   leds_lit (LATC (show_distance (s\<lparr>distance := 0\<rparr>))) = 0"
  by (simp add: show_distance_def write_LATC_def leds_lit_def)

subsection \<open>C5: the readiness check\<close>

text \<open>
  Claim C5. \<^verbatim>\<open>sonar_ready\<close> returns true if and only if the read of ECHO that it makes
  returns low.
\<close>

theorem sonar_ready_iff_echo_low:
  "fst (sonar_ready echo s) = (\<not> echo (reads s))"
  by (simp add: sonar_ready_def read_ECHO_def)

subsection \<open>C6: no trigger while ECHO is high\<close>

text \<open>
  Claim C6. Take any run of the revised \<^verbatim>\<open>sonar_range\<close>, from any state, on any ECHO
  line, with any bound, stopped at any budget \<open>n\<close> of loop passes or run until it
  returns. Among the events the run has produced, every \<^verbatim>\<open>TRIG = 1\<close> comes directly
  after a read of ECHO that returned low and the delay of 1 ms that follows it. The runs
  that return are exactly the results of the function: it returns \<open>y\<close> if and only if
  some budget is enough for the bounded run to return \<open>y\<close>.
\<close>

theorem trigger_only_after_echo_idle:
  "(\<forall>i < length (events_since s (hw_of (sonar_range_revised_upto n echo maxRange s))).
     events_since s (hw_of (sonar_range_revised_upto n echo maxRange s)) ! i = Trig_write True
     \<longrightarrow> 2 \<le> i
       \<and> events_since s (hw_of (sonar_range_revised_upto n echo maxRange s)) ! (i - 2)
           = Echo_read False
       \<and> events_since s (hw_of (sonar_range_revised_upto n echo maxRange s)) ! (i - 1)
           = Delay_ms 1) \<and>
   ((\<exists>m m'. sonar_range_revised_upto m echo maxRange s = Returned y m') =
    (sonar_range_revised echo maxRange s = Some y))"
proof (rule conjI)
  let ?L = "events_since s (hw_of (sonar_range_revised_upto n echo maxRange s))"
  show "\<forall>i < length ?L. ?L ! i = Trig_write True
          \<longrightarrow> 2 \<le> i \<and> ?L ! (i - 2) = Echo_read False \<and> ?L ! (i - 1) = Delay_ms 1"
  proof (intro allI impI)
    fix i
    assume i: "i < length ?L" "?L ! i = Trig_write True"
    from sonar_range_revised_upto_log
      [where n = n and echo = echo and maxRange = maxRange and s = s]
    obtain p rest where
      lg: "log (hw_of (sonar_range_revised_upto n echo maxRange s))
             = log s @ replicate p (Echo_read True) @ rest"
      and rest: "rest = [] \<or>
        (\<exists>tail. rest = [Echo_read False, Delay_ms 1,
                         Trig_write True, Delay_us 20, Trig_write False] @ tail \<and>
                Trig_write True \<notin> set tail)" by blast
    have L: "?L = replicate p (Echo_read True) @ rest" by (simp add: events_since_def lg)
    have "rest \<noteq> []"
    proof
      assume "rest = []"
      with L i show False by simp
    qed
    with rest obtain tail where
      tail: "rest = [Echo_read False, Delay_ms 1,
                     Trig_write True, Delay_us 20, Trig_write False] @ tail"
        "Trig_write True \<notin> set tail" by blast
    from L tail(1) have L': "?L = replicate p (Echo_read True) @
        [Echo_read False, Delay_ms 1, Trig_write True, Delay_us 20, Trig_write False] @ tail"
      by simp
    from trig_index [OF L' tail(2) i] have "i = p + 2" .
    then show "2 \<le> i \<and> ?L ! (i - 2) = Echo_read False \<and> ?L ! (i - 1) = Delay_ms 1"
      by (simp add: L' nth_append)
  qed
next
  show "(\<exists>m m'. sonar_range_revised_upto m echo maxRange s = Returned y m') =
    (sonar_range_revised echo maxRange s = Some y)"
    by (rule sonar_range_revised_upto_agrees)
qed

theorem trigger_only_after_echo_idle_witness:
  "events_since hw_init (hw_of (sonar_range_revised_upto 4 (echo_pulse 1 2) 90 hw_init)) ! 2
     = Trig_write True \<and>
   events_since hw_init (hw_of (sonar_range_revised_upto 4 (echo_pulse 1 2) 90 hw_init)) ! (2 - 2)
     = Echo_read False \<and>
   events_since hw_init (hw_of (sonar_range_revised_upto 4 (echo_pulse 1 2) 90 hw_init)) ! (2 - 1)
     = Delay_ms 1"
proof -
  have ev: "events_since hw_init (hw_of (sonar_range_revised_upto 4 (echo_pulse 1 2) 90 hw_init))
     = [Echo_read False, Delay_ms 1, Trig_write True, Delay_us 20, Trig_write False,
        Echo_read True, Delay_us 58, Echo_read True, Delay_us 58, Echo_read False]"
    by code_simp
  show ?thesis
    using trigger_only_after_echo_idle
      [of hw_init 4 "echo_pulse 1 2" 90, THEN conjunct1, THEN spec, of 2]
    unfolding ev by simp
qed

subsection \<open>C7: a pulse of 15 ticks\<close>

text \<open>
  Claim C7. When ECHO carries a pulse of 15 ticks, after any number \<open>k\<close> of low reads,
  the starter \<^verbatim>\<open>sonar_range\<close> returns 15, and the pass of the main loop that makes
  the measurement leaves 15 in \<^verbatim>\<open>distance\<close> and the pattern \<^verbatim>\<open>0b01110000\<close>, three
  LEDs, in LATC.
\<close>

theorem scenario_15_ticks:
  "map_option fst (sonar_range (echo_pulse k 15) hw_init) = Some 15 \<and>
   (\<exists>s'. main_loop_pass (echo_pulse k 15) SW1 hw_init
            = Some (if SW1 = False then Reset s' else Continue s') \<and>
         distance s' = 15 \<and> LATC s' = 0b01110000 \<and> leds_lit (LATC s') = 3)"
proof -
  have "sonar_range (echo_pulse k 15) hw_init =
     Some (of_nat (min 15 255),
           hw_init\<lparr>LATC := unset_bit 0 (set_bit 0 (LATC hw_init)),
             reads := reads hw_init + k + 15 + 1,
             log := log hw_init @ [Trig_write True, Delay_us 20, Trig_write False]
                      @ replicate k (Echo_read False) @ [Echo_read True]
                      @ concat (replicate (15 - 1) [Delay_us 58, Echo_read True])
                      @ [Delay_us 58, Echo_read False]\<rparr>)"
    by (rule sonar_range_pulse) (simp_all add: echo_pulse_def hw_init_def)
  then show ?thesis
    by (simp add: main_loop_pass_def show_distance_def write_LATC_def delay_ms_def
        leds_lit_def Let_def)
qed

subsection \<open>C8: when the starter function returns\<close>

text \<open>
  Claim C8. If some read of ECHO from the current one on returns high and a later one
  returns low, the starter \<^verbatim>\<open>sonar_range\<close> returns. If no read of ECHO ever returns
  high, it does not return.
\<close>

theorem sonar_range_termination:
  "(k < j \<and> echo (reads s + k) \<and> \<not> echo (reads s + j)
      \<longrightarrow> (\<exists>r s'. sonar_range echo s = Some (r, s'))) \<and>
   ((\<forall>i. \<not> echo (reads s + i)) \<longrightarrow> sonar_range echo s = None)"
  using sonar_range_returns [of k j echo s] sonar_range_hangs [of echo s] by blast

theorem sonar_range_termination_witness:
  "(\<exists>r s'. sonar_range (echo_pulse 2 4) hw_init = Some (r, s')) \<and>
   sonar_range (echo_pulse 0 0) hw_init = None"
  using sonar_range_termination [of 2 6 "echo_pulse 2 4" hw_init]
    sonar_range_termination [of 0 0 "echo_pulse 0 0" hw_init]
  by (simp add: echo_pulse_def hw_init_def)

subsection \<open>C9: the starter function never returns 0\<close>

text \<open>
  Claim C9. Whenever the starter \<^verbatim>\<open>sonar_range\<close> returns, on any ECHO line and from
  any state, the value is at least 1: the loop counts once before it first tests ECHO.
\<close>

theorem sonar_range_at_least_1:
  assumes "map_option fst (sonar_range echo s) = Some r"
  shows "1 \<le> r"
proof -
  from assms obtain s' where "sonar_range echo s = Some (r, s')" by auto
  then obtain s4 where "count_range echo 0 s4 = Some (r, s')"
    by (auto simp: sonar_range_def Let_def split: Option.bind_splits)
  then have "r \<noteq> 0" using count_range_nonzero by fastforce
  then show ?thesis by (simp add: word_le_nat_alt unat_gt_0 Suc_le_eq)
qed

theorem sonar_range_at_least_1_witness:
  "map_option fst (sonar_range (echo_pulse 2 1) hw_init) = Some 1 \<and> (1::byte) \<le> 1"
proof -
  have *: "map_option fst (sonar_range (echo_pulse 2 1) hw_init) = Some 1"
    using sonar_range_pulse [of 1 2 "echo_pulse 2 1" hw_init]
    by (simp add: echo_pulse_def hw_init_def)
  from sonar_range_at_least_1 [OF *] * show ?thesis by simp
qed

subsection \<open>C10: the revised function stays below maxRange\<close>

text \<open>
  Claim C10. For every bound \<open>M > 0\<close>, whenever the revised \<^verbatim>\<open>sonar_range\<close> returns,
  on any ECHO line and from any state, the value is below \<open>M\<close>; a value other than 0
  lies between 1 and \<open>M - 1\<close>.
\<close>

theorem sonar_range_revised_below_maxRange:
  assumes "0 < M" and "map_option fst (sonar_range_revised echo M s) = Some r"
  shows "r < M \<and> (r \<noteq> 0 \<longrightarrow> 1 \<le> r \<and> r \<le> M - 1)"
proof -
  from assms(2) obtain s' where "sonar_range_revised echo M s = Some (r, s')" by auto
  then obtain s6 where "count_range_revised echo M 0 s6 = Some (r, s')"
    by (auto simp: sonar_range_revised_def Let_def split: Option.bind_splits)
  from count_range_revised_below [OF this assms(1)] have lt: "r < M" by simp
  then have "unat r < unat M" by (simp add: word_less_nat_alt)
  moreover have "unat (M - 1) = unat M - 1"
    using assms(1) by (simp add: unat_minus_one word_neq_0_conv)
  ultimately have "r \<le> M - 1" by (simp add: word_le_nat_alt)
  moreover have "1 \<le> r" if "r \<noteq> 0"
    using that by (simp add: word_le_nat_alt unat_gt_0 Suc_le_eq)
  ultimately show ?thesis using lt by simp
qed

theorem sonar_range_revised_below_maxRange_witness:
  "(0::byte) < 90 \<and> map_option fst (sonar_range_revised (echo_pulse 3 15) 90 hw_init) = Some 15
   \<and> (15::byte) < 90 \<and> (15::byte) \<noteq> 0 \<and> (1::byte) \<le> 15 \<and> (15::byte) \<le> 90 - 1"
proof -
  have "\<forall>i<15. of_nat (Suc i) \<noteq> (90 :: byte)"
    by (simp add: of_nat_byte_eq_iff del: of_nat_Suc)
  from sonar_range_revised_returns [of 15 0 "echo_pulse 3 15" hw_init 2 90, OF _ _ _ _ _ _ this]
  have *: "map_option fst (sonar_range_revised (echo_pulse 3 15) 90 hw_init) = Some 15"
    by (simp add: echo_pulse_def hw_init_def)
  have "(0::byte) < 90" by simp
  from sonar_range_revised_below_maxRange [OF this *] * show ?thesis by simp
qed

end
